theory Spec2Isabelle
  imports Complex_Main "HOL-Library.Multiset"
begin

section \<open>Values, files and exceptions\<close>

text \<open>
  The values \<^verbatim>\<open>json.load\<close> produces. A Python dict keeps its keys in insertion
  order, so an object is an association list; \<open>map_of\<close> reads it. A dict holds a key
  once: of two bindings of one key only the first would ever be read or updated.
\<close>

datatype json =
    JNull
  | JBool bool
  | JInt int
  | JFloat real
  | JStr string
  | JArr "json list"
  | JObj "(string \<times> json) list"

text \<open>Python's truth value of such a value, as \<^verbatim>\<open>if x\<close> and \<^verbatim>\<open>not x\<close> take it.\<close>

fun truthy :: "json \<Rightarrow> bool" where
  "truthy JNull = False"
| "truthy (JBool b) = b"
| "truthy (JInt n) = (n \<noteq> 0)"
| "truthy (JFloat r) = (r \<noteq> 0)"
| "truthy (JStr s) = (s \<noteq> [])"
| "truthy (JArr xs) = (xs \<noteq> [])"
| "truthy (JObj kvs) = (kvs \<noteq> [])"

text \<open>The exceptions that the program raises or lets through.\<close>

datatype py_error =
    FileNotFoundError
  | PermissionError
  | JSONDecodeError
  | AttributeError
  | TypeError
  | ValueError
  | UnicodeDecodeError
  | RecursionError
  | Exception int json

text \<open>
  What \<^verbatim>\<open>credentials.json\<close> is at the moment it is opened: absent; present but
  refused by \<^verbatim>\<open>open\<close>; bytes that do not decode as text; text that the parser
  rejects as not JSON; text nested deeper than the parser's recursion goes; or text that
  parses to a value.
\<close>

datatype file_state =
    NoFile
  | Unreadable
  | NotText string
  | NotJson string
  | TooDeep string
  | Doc json

text \<open>
  \<^verbatim>\<open>with open(self.credentials_file, 'r') as file: json.load(file)\<close>. Reading bytes
  that are not text raises \<^verbatim>\<open>UnicodeDecodeError\<close>, and the parser gives up on deep
  nesting with \<^verbatim>\<open>RecursionError\<close>; neither is a \<^verbatim>\<open>JSONDecodeError\<close>.
\<close>

fun read_json :: "file_state \<Rightarrow> py_error + json" where
  "read_json NoFile = Inl FileNotFoundError"
| "read_json Unreadable = Inl PermissionError"
| "read_json (NotText bytes) = Inl UnicodeDecodeError"
| "read_json (NotJson txt) = Inl JSONDecodeError"
| "read_json (TooDeep txt) = Inl RecursionError"
| "read_json (Doc j) = Inr j"

text \<open>
  \<^verbatim>\<open>x.get(key, default)\<close>: only a dict has the method, any other value raises
  \<^verbatim>\<open>AttributeError\<close>.
\<close>

fun py_get :: "json \<Rightarrow> string \<Rightarrow> json \<Rightarrow> py_error + json" where
  "py_get (JObj kvs) k dflt = Inr (case map_of kvs k of None \<Rightarrow> dflt | Some v \<Rightarrow> v)"
| "py_get _ k dflt = Inl AttributeError"

text \<open>\<^verbatim>\<open>credentials.get("spotify", {}).get(key, default)\<close>\<close>

definition spotify_get :: "json \<Rightarrow> string \<Rightarrow> json \<Rightarrow> py_error + json" where
  "spotify_get credentials k dflt =
     (case py_get credentials ''spotify'' (JObj []) of
        Inl e \<Rightarrow> Inl e
      | Inr section \<Rightarrow> py_get section k dflt)"

text \<open>
  The handler \<^verbatim>\<open>except (FileNotFoundError, json.JSONDecodeError)\<close>: does it catch
  the exception?
\<close>

fun caught :: "py_error \<Rightarrow> bool" where
  "caught FileNotFoundError = True"
| "caught JSONDecodeError = True"
| "caught _ = False"

section \<open>The credential store\<close>

text \<open>
  \<^verbatim>\<open>load_client_credentials\<close> (lines 23 to 42). The five reads and the
  \<^verbatim>\<open>raise ValueError\<close> are inside the \<^verbatim>\<open>try\<close>; its handler turns the two
  exceptions it catches into \<^verbatim>\<open>FileNotFoundError\<close> and lets every other one through.
\<close>

definition load_body :: "json \<Rightarrow> py_error + (json \<times> json \<times> json \<times> json \<times> json)" where
  "load_body credentials =
     (case spotify_get credentials ''client_id'' JNull of Inl e \<Rightarrow> Inl e | Inr client_id \<Rightarrow>
     (case spotify_get credentials ''client_secret'' JNull of Inl e \<Rightarrow> Inl e | Inr client_secret \<Rightarrow>
     (case spotify_get credentials ''podcast_id'' JNull of Inl e \<Rightarrow> Inl e | Inr podcast_id \<Rightarrow>
     (case spotify_get credentials ''episode_ids'' (JArr []) of Inl e \<Rightarrow> Inl e | Inr episode_ids \<Rightarrow>
     (case spotify_get credentials ''device_id'' JNull of Inl e \<Rightarrow> Inl e | Inr device_id \<Rightarrow>
        if truthy client_id \<and> truthy client_secret \<and> truthy podcast_id
           \<and> truthy episode_ids \<and> truthy device_id
        then Inr (client_id, client_secret, podcast_id, episode_ids, device_id)
        else Inl ValueError)))))"

definition load_client_credentials ::
    "file_state \<Rightarrow> py_error + (json \<times> json \<times> json \<times> json \<times> json)" where
  "load_client_credentials f =
     (case (case read_json f of Inl e \<Rightarrow> Inl e | Inr credentials \<Rightarrow> load_body credentials) of
        Inl e \<Rightarrow> if caught e then Inl FileNotFoundError else Inl e
      | Inr r \<Rightarrow> Inr r)"

text \<open>
  \<^verbatim>\<open>credentials.setdefault("spotify", {})["access_token"] = access_token\<close> (line 106).
  \<^verbatim>\<open>setdefault\<close> is a method of dicts only, and the item assignment works on a dict
  only: a list, a string, a number or \<^verbatim>\<open>None\<close> raises \<^verbatim>\<open>TypeError\<close>.
  \<open>dict_set\<close> is Python's \<^verbatim>\<open>d[k] = v\<close>: a key already there keeps its place, a new
  one goes last.
\<close>

fun dict_set :: "string \<Rightarrow> json \<Rightarrow> (string \<times> json) list \<Rightarrow> (string \<times> json) list" where
  "dict_set k v [] = [(k, v)]"
| "dict_set k v ((k', v') # kvs) =
     (if k' = k then (k, v) # kvs else (k', v') # dict_set k v kvs)"

fun set_token :: "json \<Rightarrow> json \<Rightarrow> py_error + json" where
  "set_token access_token (JObj kvs) =
     (case map_of kvs ''spotify'' of
        None \<Rightarrow> Inr (JObj (dict_set ''spotify'' (JObj [(''access_token'', access_token)]) kvs))
      | Some (JObj section) \<Rightarrow>
          Inr (JObj (dict_set ''spotify'' (JObj (dict_set ''access_token'' access_token section)) kvs))
      | Some _ \<Rightarrow> Inl TypeError)"
| "set_token access_token _ = Inl AttributeError"

text \<open>
  \<^verbatim>\<open>update_credentials_file\<close> (lines 94 to 109) returns the file it leaves and the
  exception, if one was raised. The file is written only when line 106 has succeeded. What
  \<^verbatim>\<open>json.dump\<close> writes is taken to parse back to the value written, and the write
  itself to succeed.
\<close>

definition update_credentials_file :: "json \<Rightarrow> file_state \<Rightarrow> file_state \<times> (py_error + unit)" where
  "update_credentials_file access_token f =
     (case (case read_json f of
              Inl e \<Rightarrow> if caught e then Inr (JObj []) else Inl e
            | Inr credentials \<Rightarrow> Inr credentials) of
        Inl e \<Rightarrow> (f, Inl e)
      | Inr credentials \<Rightarrow>
          (case set_token access_token credentials of
             Inl e \<Rightarrow> (f, Inl e)
           | Inr credentials' \<Rightarrow> (Doc credentials', Inr ())))"

text \<open>What the program prints.\<close>

datatype message =
    Could_not_read
  | Playback_disabled
  | Playing json
  | Finished_playing json
  | Failed_to_play json json

text \<open>
  \<^verbatim>\<open>is_enabled\<close> (lines 111 to 121) returns what it printed and its result: the
  value stored under \<^verbatim>\<open>enabled\<close>, whatever its type, or \<^verbatim>\<open>False\<close>.
\<close>

definition is_enabled :: "file_state \<Rightarrow> message list \<times> (py_error + json)" where
  "is_enabled f =
     (case (case read_json f of
              Inl e \<Rightarrow> Inl e
            | Inr credentials \<Rightarrow> spotify_get credentials ''enabled'' (JBool False)) of
        Inl e \<Rightarrow> if caught e then ([Could_not_read], Inr (JBool False)) else ([], Inl e)
      | Inr v \<Rightarrow> ([], Inr v))"

section \<open>The token\<close>

text \<open>
  The remote service: the three requests the program sends, and the answer to each. The
  body of a response is \<open>None\<close> when it is not JSON, and then \<^verbatim>\<open>response.json()\<close>
  raises.
\<close>

datatype request =
    GetMe json
  | PostToken json json
  | PutPlay json json json

record response =
  status_code :: int
  body :: "json option"

type_synonym remote = "request \<Rightarrow> response"

definition response_json :: "response \<Rightarrow> py_error + json" where
  "response_json r = (case body r of None \<Rightarrow> Inl JSONDecodeError | Some j \<Rightarrow> Inr j)"

text \<open>\<^verbatim>\<open>is_token_valid\<close> (lines 61 to 71): the request it sends and its result.\<close>

definition is_token_valid :: "remote \<Rightarrow> json \<Rightarrow> request list \<times> bool" where
  "is_token_valid srv token = ([GetMe token], status_code (srv (GetMe token)) = 200)"

text \<open>
  \<^verbatim>\<open>request_new_token\<close> (lines 73 to 92) returns the file it leaves, the requests it
  sent and its result. The message of the exception of line 89 is built from
  \<^verbatim>\<open>response.json()\<close>, which is evaluated first.
\<close>

definition request_new_token ::
    "remote \<Rightarrow> json \<Rightarrow> json \<Rightarrow> file_state \<Rightarrow> file_state \<times> request list \<times> (py_error + json)" where
  "request_new_token srv client_id client_secret f =
     (let rq = PostToken client_id client_secret; r = srv rq in
      if status_code r \<noteq> 200 then
        (case response_json r of
           Inl e \<Rightarrow> (f, [rq], Inl e)
         | Inr j \<Rightarrow> (f, [rq], Inl (Exception (status_code r) j)))
      else
        (case response_json r of
           Inl e \<Rightarrow> (f, [rq], Inl e)
         | Inr j \<Rightarrow>
            (case py_get j ''access_token'' JNull of
               Inl e \<Rightarrow> (f, [rq], Inl e)
             | Inr access_token \<Rightarrow>
                (case update_credentials_file access_token f of
                   (f', Inl e) \<Rightarrow> (f', [rq], Inl e)
                 | (f', Inr u) \<Rightarrow> (f', [rq], Inr access_token)))))"

text \<open>
  \<^verbatim>\<open>get_access_token\<close> (lines 44 to 59). \<^verbatim>\<open>access_token and
  self.is_token_valid(access_token)\<close> probes only a token that is truthy.
\<close>

definition get_access_token ::
    "remote \<Rightarrow> json \<Rightarrow> json \<Rightarrow> file_state \<Rightarrow> file_state \<times> request list \<times> (py_error + json)" where
  "get_access_token srv client_id client_secret f =
     (case (case read_json f of
              Inl e \<Rightarrow> Inl e
            | Inr credentials \<Rightarrow> spotify_get credentials ''access_token'' JNull) of
        Inl e \<Rightarrow> (f, [], Inl (if caught e then FileNotFoundError else e))
      | Inr access_token \<Rightarrow>
          if \<not> truthy access_token then request_new_token srv client_id client_secret f
          else
            (case is_token_valid srv access_token of
               (probe, True) \<Rightarrow> (f, probe, Inr access_token)
             | (probe, False) \<Rightarrow>
                (case request_new_token srv client_id client_secret f of
                   (f', rqs, res) \<Rightarrow> (f', probe @ rqs, res))))"

text \<open>The object \<^verbatim>\<open>__init__\<close> (lines 8 to 21) builds, when it builds one.\<close>

record fetcher =
  client_id :: json
  client_secret :: json
  podcast_id :: json
  episode_ids :: json
  device_id :: json
  access_token :: json

definition init :: "remote \<Rightarrow> file_state \<Rightarrow> file_state \<times> request list \<times> (py_error + fetcher)" where
  "init srv f =
     (case load_client_credentials f of
        Inl e \<Rightarrow> (f, [], Inl e)
      | Inr (cid, secret, pid, eps, dev) \<Rightarrow>
          (case get_access_token srv cid secret f of
             (f', rqs, Inl e) \<Rightarrow> (f', rqs, Inl e)
           | (f', rqs, Inr tok) \<Rightarrow>
               (f', rqs, Inr \<lparr>client_id = cid, client_secret = secret, podcast_id = pid,
                               episode_ids = eps, device_id = dev, access_token = tok\<rparr>)))"

text \<open>The token-exchange calls among the requests sent.\<close>

fun is_exchange :: "request \<Rightarrow> bool" where
  "is_exchange (PostToken cid secret) = True"
| "is_exchange _ = False"

definition exchanges :: "request list \<Rightarrow> nat" where
  "exchanges rqs = length (filter is_exchange rqs)"

text \<open>
  A document of the expected shape: a JSON object whose \<^verbatim>\<open>spotify\<close> member is an
  object, or is absent (then the section read is the default, the empty dict).
\<close>

fun section_of :: "json \<Rightarrow> (string \<times> json) list option" where
  "section_of (JObj kvs) =
     (case map_of kvs ''spotify'' of
        None \<Rightarrow> Some []
      | Some (JObj section) \<Rightarrow> Some section
      | Some _ \<Rightarrow> None)"
| "section_of _ = None"

text \<open>A field that is missing from the section, or is there with an empty (falsy) value.\<close>

definition missing_or_empty :: "(string \<times> json) list \<Rightarrow> string \<Rightarrow> bool" where
  "missing_or_empty section k = (case map_of section k of None \<Rightarrow> True | Some v \<Rightarrow> \<not> truthy v)"

definition required_fields :: "string list" where
  "required_fields = [''client_id'', ''client_secret'', ''podcast_id'', ''episode_ids'', ''device_id'']"

section \<open>The scheduler\<close>

text \<open>
  \<^verbatim>\<open>random.shuffle(x)\<close> is the loop
  \<^verbatim>\<open>for i in reversed(range(1, len(x))): j = randbelow(i + 1); x[i], x[j] = x[j], x[i]\<close>.
  The draws are an input: \<open>rnd n\<close> stands for the draw made with bound \<open>n\<close>, brought
  below \<open>n\<close>. \<open>shuffle_down rnd i x\<close> runs the iterations \<open>i\<close>, \<open>i - 1\<close>, down to 1.
\<close>

definition swap :: "nat \<Rightarrow> nat \<Rightarrow> 'a list \<Rightarrow> 'a list" where
  "swap i j x = x[i := x ! j, j := x ! i]"

fun shuffle_down :: "(nat \<Rightarrow> nat) \<Rightarrow> nat \<Rightarrow> 'a list \<Rightarrow> 'a list" where
  "shuffle_down rnd 0 x = x"
| "shuffle_down rnd (Suc i) x = shuffle_down rnd i (swap (Suc i) (rnd (Suc i + 1) mod (Suc i + 1)) x)"

definition shuffle :: "(nat \<Rightarrow> nat) \<Rightarrow> 'a list \<Rightarrow> 'a list" where
  "shuffle rnd x = shuffle_down rnd (length x - 1) x"

text \<open>
  One coroutine \<^verbatim>\<open>play_episode(episode_id, semaphore)\<close> (lines 140 to 160) is, at any
  moment, in one of these places: not yet past \<^verbatim>\<open>async with semaphore\<close>; past it,
  its \<^verbatim>\<open>requests.put\<close> sent; in \<^verbatim>\<open>asyncio.sleep(5)\<close> after a 204; out of the
  block, returned; out of the block by the exception of \<^verbatim>\<open>response.json()\<close>.
\<close>

datatype task_state = Pending | Admitted | Sleeping | Finished | Raised

text \<open>
  Where \<^verbatim>\<open>play_randomly\<close> (lines 162 to 176) itself is: at the head of its loop,
  awaiting \<^verbatim>\<open>asyncio.gather\<close>, returned after the \<^verbatim>\<open>break\<close>, or left by an
  exception.
\<close>

datatype control = LoopHead | Gathering | Stopped | Crashed py_error

text \<open>
  What the scheduler does, in order; each event is kept with the number of the loop
  iteration (the cycle) it belongs to.
\<close>

datatype event =
    Check_enabled
  | Shuffled
  | Sent request
  | Print message
  | Task_done nat
  | Task_raised nat

record sched =
  episodes :: "json list"
  device :: json
  token :: json
  sem_value :: int
  tasks :: "(json \<times> task_state) list"
  cycle :: nat
  control :: control
  credentials_file :: file_state
  trace :: "(nat \<times> event) list"

text \<open>
  Entering \<^verbatim>\<open>play_randomly\<close>, for an object whose \<^verbatim>\<open>episode_ids\<close> is a list:
  \<^verbatim>\<open>asyncio.Semaphore(max_concurrent)\<close> raises \<^verbatim>\<open>ValueError\<close> for a negative
  value.
\<close>

definition play_randomly :: "int \<Rightarrow> json list \<Rightarrow> json \<Rightarrow> json \<Rightarrow> file_state \<Rightarrow> sched" where
  "play_randomly max_concurrent eps dev tok f =
     \<lparr>episodes = eps, device = dev, token = tok, sem_value = max_concurrent, tasks = [],
      cycle = 0, control = (if max_concurrent < 0 then Crashed ValueError else LoopHead),
      credentials_file = f, trace = []\<rparr>"

text \<open>
  The event loop runs one coroutine at a time, from one suspension point to the next. What
  happens next is not the program's choice, so it is an input:
  \<^item> \<open>Edit f\<close>: somebody rewrites the credential file;
  \<^item> \<open>Iterate rnd\<close>: \<^verbatim>\<open>play_randomly\<close> runs lines 170 to 176, from the loop head to
    the \<^verbatim>\<open>await\<close>, the shuffle drawing \<open>rnd\<close>;
  \<^item> \<open>Admit i\<close>: task \<open>i\<close> passes \<^verbatim>\<open>async with semaphore\<close>, which needs a positive
    semaphore value, and sends its request (line 154);
  \<^item> \<open>Respond i r\<close>: the request of task \<open>i\<close> returns \<open>r\<close> (lines 155 to 160);
  \<^item> \<open>Wake i\<close>: the sleep of task \<open>i\<close> ends (line 158) and the task leaves the block;
  \<^item> \<open>Gather\<close>: \<^verbatim>\<open>asyncio.gather\<close> hands control back, by the exception of a task
    once there is one, normally once all tasks have returned.
  An input that cannot happen in the state it is given in changes nothing. The sequences
  of inputs include every order the event loop can take and more: the loop runs a task
  that is already scheduled before it resumes \<^verbatim>\<open>play_randomly\<close> with an exception, and
  \<^verbatim>\<open>requests.put\<close> blocks, so \<open>Respond i\<close> follows \<open>Admit i\<close> at once. What holds
  of all sequences holds of those; a single run is given in an order the loop takes.
\<close>

datatype action =
    Edit file_state
  | Iterate "nat \<Rightarrow> nat"
  | Admit nat
  | Respond nat response
  | Wake nat
  | Gather

definition logged :: "sched \<Rightarrow> event list \<Rightarrow> (nat \<times> event) list" where
  "logged s evs = trace s @ map (Pair (cycle s)) evs"

definition set_task :: "nat \<Rightarrow> task_state \<Rightarrow> (json \<times> task_state) list \<Rightarrow> (json \<times> task_state) list" where
  "set_task i t ts = ts[i := (fst (ts ! i), t)]"

definition at_task :: "sched \<Rightarrow> nat \<Rightarrow> task_state \<Rightarrow> bool" where
  "at_task s i t = (control s = Gathering \<and> i < length (tasks s) \<and> snd (tasks s ! i) = t)"

fun step :: "action \<Rightarrow> sched \<Rightarrow> sched" where
  "step (Edit f) s = s\<lparr>credentials_file := f\<rparr>"
| "step (Iterate rnd) s =
     (if control s \<noteq> LoopHead then s
      else
        (case is_enabled (credentials_file s) of
           (msgs, Inl e) \<Rightarrow>
             s\<lparr>control := Crashed e, trace := logged s (Check_enabled # map Print msgs)\<rparr>
         | (msgs, Inr v) \<Rightarrow>
             if \<not> truthy v
             then s\<lparr>control := Stopped,
                    trace := logged s (Check_enabled # map Print msgs @ [Print Playback_disabled])\<rparr>
             else
               (let eps = shuffle rnd (episodes s) in
                s\<lparr>episodes := eps, tasks := map (\<lambda>e. (e, Pending)) eps, control := Gathering,
                  trace := logged s (Check_enabled # map Print msgs @ [Shuffled])\<rparr>)))"
| "step (Admit i) s =
     (if at_task s i Pending \<and> 0 < sem_value s
      then s\<lparr>sem_value := sem_value s - 1, tasks := set_task i Admitted (tasks s),
             trace := logged s [Sent (PutPlay (token s) (fst (tasks s ! i)) (device s))]\<rparr>
      else s)"
| "step (Respond i r) s =
     (if at_task s i Admitted
      then
        (if status_code r = 204
         then s\<lparr>tasks := set_task i Sleeping (tasks s),
                trace := logged s [Print (Playing (fst (tasks s ! i)))]\<rparr>
         else
           (case response_json r of
              Inr j \<Rightarrow>
                s\<lparr>sem_value := sem_value s + 1, tasks := set_task i Finished (tasks s),
                  trace := logged s [Print (Failed_to_play (fst (tasks s ! i)) j), Task_done i]\<rparr>
            | Inl e \<Rightarrow>
                s\<lparr>sem_value := sem_value s + 1, tasks := set_task i Raised (tasks s),
                  trace := logged s [Task_raised i]\<rparr>))
      else s)"
| "step (Wake i) s =
     (if at_task s i Sleeping
      then s\<lparr>sem_value := sem_value s + 1, tasks := set_task i Finished (tasks s),
             trace := logged s [Print (Finished_playing (fst (tasks s ! i))), Task_done i]\<rparr>
      else s)"
| "step Gather s =
     (if control s \<noteq> Gathering then s
      else if Raised \<in> snd ` set (tasks s) then s\<lparr>control := Crashed JSONDecodeError\<rparr>
      else if \<forall>t \<in> set (tasks s). snd t = Finished then s\<lparr>cycle := cycle s + 1, control := LoopHead\<rparr>
      else s)"

text \<open>The scheduler after a sequence of such inputs.\<close>

definition run :: "sched \<Rightarrow> action list \<Rightarrow> sched" where
  "run s acts = foldl (\<lambda>s a. step a s) s acts"

text \<open>The play commands in flight: the tasks inside \<^verbatim>\<open>async with semaphore\<close>.\<close>

fun holds_slot :: "json \<times> task_state \<Rightarrow> bool" where
  "holds_slot (e, t) = (t = Admitted \<or> t = Sleeping)"

definition in_flight :: "sched \<Rightarrow> nat" where
  "in_flight s = length (filter holds_slot (tasks s))"

text \<open>The episodes of the play commands sent in cycle \<open>n\<close>, in the order sent.\<close>

fun played :: "nat \<Rightarrow> (nat \<times> event) list \<Rightarrow> json list" where
  "played n [] = []"
| "played n ((k, Sent (PutPlay tok e dev)) # tr) = (if k = n then e # played n tr else played n tr)"
| "played n (x # tr) = played n tr"

section \<open>Concrete documents and services\<close>

text \<open>The token as \<^verbatim>\<open>get_access_token\<close> reads it from the section (line 51).\<close>

definition cached_token :: "(string \<times> json) list \<Rightarrow> json" where
  "cached_token section = (case map_of section ''access_token'' of None \<Rightarrow> JNull | Some v \<Rightarrow> v)"

definition example_section :: "(string \<times> json) list" where
  "example_section =
     [(''client_id'', JStr ''id''), (''client_secret'', JStr ''secret''),
      (''podcast_id'', JStr ''show''), (''episode_ids'', JArr [JStr ''a'', JStr ''b'', JStr ''c'']),
      (''device_id'', JStr ''dev''), (''access_token'', JStr ''old''), (''enabled'', JBool True)]"

definition example_credentials :: json where
  "example_credentials = JObj [(''spotify'', JObj example_section)]"

text \<open>A document with an empty \<^verbatim>\<open>client_secret\<close> and no \<^verbatim>\<open>device_id\<close>.\<close>

definition incomplete_credentials :: json where
  "incomplete_credentials =
     JObj [(''spotify'', JObj [(''client_id'', JStr ''id''), (''client_secret'', JStr []),
       (''podcast_id'', JStr ''show''), (''episode_ids'', JArr [JStr ''a''])])]"

text \<open>
  Two services that find the cached token invalid: one rejects the exchange with a 400,
  the other grants a new token.
\<close>

definition rejecting_remote :: remote where
  "rejecting_remote rq =
     (case rq of
        GetMe t \<Rightarrow> \<lparr>status_code = 401, body = Some (JObj [])\<rparr>
      | PostToken c s \<Rightarrow> \<lparr>status_code = 400, body = Some (JObj [(''error'', JStr ''invalid_client'')])\<rparr>
      | PutPlay t e d \<Rightarrow> \<lparr>status_code = 204, body = None\<rparr>)"

definition granting_remote :: remote where
  "granting_remote rq =
     (case rq of
        GetMe t \<Rightarrow> \<lparr>status_code = 401, body = Some (JObj [])\<rparr>
      | PostToken c s \<Rightarrow> \<lparr>status_code = 200, body = Some (JObj [(''access_token'', JStr ''new'')])\<rparr>
      | PutPlay t e d \<Rightarrow> \<lparr>status_code = 204, body = None\<rparr>)"

section \<open>Invariants of the scheduler, and concrete runs\<close>

text \<open>A task that has sent its play command.\<close>

fun dispatched :: "json \<times> task_state \<Rightarrow> bool" where
  "dispatched (e, t) = (t \<noteq> Pending)"

text \<open>
  The semaphore's value and the tasks inside the block add up to \<^verbatim>\<open>max_concurrent\<close>;
  between cycles no task is inside the block.
\<close>

definition slots_inv :: "int \<Rightarrow> sched \<Rightarrow> bool" where
  "slots_inv m s \<longleftrightarrow>
     sem_value s + int (in_flight s) = m
   \<and> (m < 0 \<longrightarrow> tasks s = [] \<and> control s = Crashed ValueError)
   \<and> (0 \<le> m \<longrightarrow> 0 \<le> sem_value s)
   \<and> (control s = LoopHead \<longrightarrow> in_flight s = 0)"

text \<open>The number of semaphore slots a task holds in each place.\<close>

fun occupies :: "task_state \<Rightarrow> nat" where
  "occupies Admitted = 1"
| "occupies Sleeping = 1"
| "occupies _ = 0"

text \<open>What the trace holds for the cycles that are over and for the one under way.\<close>

definition trace_inv :: "json list \<Rightarrow> sched \<Rightarrow> bool" where
  "trace_inv eps0 s \<longleftrightarrow>
     mset (episodes s) = mset eps0
   \<and> (\<forall>x \<in> set (trace s). fst x \<le> cycle s)
   \<and> (\<forall>n < cycle s. mset (played n (trace s)) = mset eps0
          \<and> (\<forall>i < length eps0. (n, Task_done i) \<in> set (trace s)))
   \<and> (control s = LoopHead \<longrightarrow> (\<forall>x \<in> set (trace s). fst x < cycle s))
   \<and> (control s = Gathering \<longrightarrow>
         mset (map fst (tasks s)) = mset eps0
       \<and> mset (played (cycle s) (trace s)) = mset (map fst (filter dispatched (tasks s)))
       \<and> (\<forall>i < length (tasks s). snd (tasks s ! i) = Finished \<longrightarrow>
             (cycle s, Task_done i) \<in> set (trace s)))"

text \<open>The episodes of the play commands among some events.\<close>

fun sent_episodes :: "event list \<Rightarrow> json list" where
  "sent_episodes [] = []"
| "sent_episodes (Sent (PutPlay tok e dev) # evs) = e # sent_episodes evs"
| "sent_episodes (ev # evs) = sent_episodes evs"

text \<open>
  Every event of cycle \<open>n + 1\<close> comes after the return of each of the \<open>N\<close> tasks of
  cycle \<open>n\<close>.
\<close>

definition ordered :: "nat \<Rightarrow> (nat \<times> event) list \<Rightarrow> bool" where
  "ordered N tr \<longleftrightarrow>
     (\<forall>pre n e post. tr = pre @ (Suc n, e) # post \<longrightarrow> (\<forall>i<N. (n, Task_done i) \<in> set pre))"

text \<open>
  Three answers to a play command: success, a refusal with a JSON body, and a gateway
  error whose body is not JSON.
\<close>

definition ok :: response where
  "ok = \<lparr>status_code = 204, body = None\<rparr>"

definition forbidden :: response where
  "forbidden = \<lparr>status_code = 403, body = Some (JObj [(''error'', JStr ''forbidden'')])\<rparr>"

definition bad_gateway :: response where
  "bad_gateway = \<lparr>status_code = 502, body = None\<rparr>"

text \<open>
  The scheduler entered with two episodes and one slot, on a document that enables
  playback; and a schedule that takes it through one whole cycle, the second play command
  refused.
\<close>

definition two_episodes :: sched where
  "two_episodes =
     play_randomly 1 [JStr ''a'', JStr ''b''] (JStr ''dev'') (JStr ''tok'') (Doc example_credentials)"

definition full_cycle :: "action list" where
  "full_cycle =
     [Iterate (\<lambda>n. 0), Admit 0, Respond 0 ok, Wake 0, Admit 1, Respond 1 forbidden, Gather]"

text \<open>A document that disables playback.\<close>

definition disabled_credentials :: json where
  "disabled_credentials = JObj [(''spotify'', JObj [(''enabled'', JBool False)])]"

section \<open>The credential store: what is proved\<close>

lemma spotify_get_section:
  "section_of credentials = Some section \<Longrightarrow>
   spotify_get credentials k dflt = Inr (case map_of section k of None \<Rightarrow> dflt | Some v \<Rightarrow> v)"
  by (cases credentials) (auto simp: spotify_get_def split: option.splits json.splits)

lemma load_body_missing:
  assumes "section_of credentials = Some section"
    and "k \<in> set required_fields"
    and "missing_or_empty section k"
  shows "load_body credentials = Inl ValueError"
  using assms(2,3)
  by (auto simp: load_body_def spotify_get_section[OF assms(1)] required_fields_def
      missing_or_empty_def split: option.splits)

text \<open>
  Claim C5. For a document of the expected shape in which one of the five required fields
  is missing or empty, \<^verbatim>\<open>load_client_credentials\<close> raises the \<^verbatim>\<open>ValueError\<close> of
  line 40, which its handler does not catch, and \<^verbatim>\<open>__init__\<close> ends there: no request
  has been sent, the file is as it was, and no object exists.
\<close>

theorem load_missing_field_fails:
  assumes "section_of credentials = Some section"
    and "k \<in> set required_fields"
    and "missing_or_empty section k"
  shows "load_client_credentials (Doc credentials) = Inl ValueError
       \<and> init srv (Doc credentials) = (Doc credentials, [], Inl ValueError)"
  using load_body_missing[OF assms]
  by (simp add: load_client_credentials_def init_def)

theorem load_missing_field_fails_witness:
  "load_client_credentials (Doc incomplete_credentials) = Inl ValueError
 \<and> init granting_remote (Doc incomplete_credentials) = (Doc incomplete_credentials, [], Inl ValueError)"
proof -
  have h: "section_of incomplete_credentials = Some [(''client_id'', JStr ''id''),
      (''client_secret'', JStr []), (''podcast_id'', JStr ''show''), (''episode_ids'', JArr [JStr ''a''])]"
    by (simp add: incomplete_credentials_def)
  show ?thesis
    by (rule load_missing_field_fails[OF h, of "''device_id''"])
      (simp_all add: required_fields_def missing_or_empty_def)
qed

lemma map_of_dict_set: "map_of (dict_set k v kvs) = (map_of kvs)(k \<mapsto> v)"
  by (induction kvs) (auto simp: fun_eq_iff)

lemma keys_dict_set:
  "map fst (dict_set k v kvs) = (if k \<in> fst ` set kvs then map fst kvs else map fst kvs @ [k])"
  by (induction kvs) force+

lemma set_token_section:
  assumes "section_of credentials = Some section"
  shows "\<exists>credentials'. set_token tok credentials = Inr credentials'
      \<and> section_of credentials' = Some (dict_set ''access_token'' tok section)
      \<and> (\<forall>k d. k \<noteq> ''spotify'' \<longrightarrow> py_get credentials' k d = py_get credentials k d)"
  using assms
  by (cases credentials) (auto simp: map_of_dict_set split: option.splits json.splits)

lemma update_section:
  assumes "section_of credentials = Some section"
  shows "\<exists>credentials'. update_credentials_file tok (Doc credentials) = (Doc credentials', Inr ())
      \<and> section_of credentials' = Some (dict_set ''access_token'' tok section)
      \<and> (\<forall>k d. k \<noteq> ''spotify'' \<longrightarrow> py_get credentials' k d = py_get credentials k d)"
  using set_token_section[OF assms, of tok]
  by (auto simp: update_credentials_file_def)

text \<open>
  Claim C6. For a document of the expected shape, \<^verbatim>\<open>update_credentials_file\<close> succeeds
  and the document read back has the new token under \<^verbatim>\<open>access_token\<close>, every other
  key of the section and every other top-level key as before; so
  \<^verbatim>\<open>load_client_credentials\<close> (client id and secret, podcast id, episode ids, device
  id) and \<^verbatim>\<open>is_enabled\<close> give on it what they gave before.
\<close>

theorem persist_token_frame:
  assumes "section_of credentials = Some section"
  shows "\<exists>credentials' section'.
           update_credentials_file tok (Doc credentials) = (Doc credentials', Inr ())
         \<and> section_of credentials' = Some section'
         \<and> map_of section' ''access_token'' = Some tok
         \<and> (\<forall>k. k \<noteq> ''access_token'' \<longrightarrow> map_of section' k = map_of section k)
         \<and> (\<forall>k d. k \<noteq> ''spotify'' \<longrightarrow> py_get credentials' k d = py_get credentials k d)
         \<and> load_client_credentials (Doc credentials') = load_client_credentials (Doc credentials)
         \<and> is_enabled (Doc credentials') = is_enabled (Doc credentials)"
proof -
  obtain credentials' where
    u: "update_credentials_file tok (Doc credentials) = (Doc credentials', Inr ())"
    and s: "section_of credentials' = Some (dict_set ''access_token'' tok section)"
    and t: "\<forall>k d. k \<noteq> ''spotify'' \<longrightarrow> py_get credentials' k d = py_get credentials k d"
    using update_section[OF assms] by blast
  have g: "spotify_get credentials' k d = spotify_get credentials k d" if "k \<noteq> ''access_token''" for k d
    using that by (simp add: spotify_get_section[OF s] spotify_get_section[OF assms] map_of_dict_set)
  have "load_body credentials' = load_body credentials"
    by (simp add: load_body_def g cong: sum.case_cong)
  then have l: "load_client_credentials (Doc credentials') = load_client_credentials (Doc credentials)"
    by (simp add: load_client_credentials_def)
  have e: "is_enabled (Doc credentials') = is_enabled (Doc credentials)"
    by (simp add: is_enabled_def g)
  show ?thesis
    using u s t l e by (intro exI[of _ credentials'] exI[of _ "dict_set ''access_token'' tok section"])
      (simp add: map_of_dict_set)
qed

theorem persist_token_frame_witness:
  "\<exists>credentials'.
      update_credentials_file (JStr ''new'') (Doc example_credentials) = (Doc credentials', Inr ())
    \<and> spotify_get credentials' ''access_token'' JNull = Inr (JStr ''new'')
    \<and> spotify_get credentials' ''device_id'' JNull = Inr (JStr ''dev'')"
proof -
  have h: "section_of example_credentials = Some example_section"
    by (simp add: example_credentials_def)
  from persist_token_frame[OF h, of "JStr ''new''"] obtain credentials' section' where
    "update_credentials_file (JStr ''new'') (Doc example_credentials) = (Doc credentials', Inr ())"
    "section_of credentials' = Some section'"
    "map_of section' ''access_token'' = Some (JStr ''new'')"
    "\<forall>k. k \<noteq> ''access_token'' \<longrightarrow> map_of section' k = map_of example_section k"
    by blast
  then show ?thesis
    by (intro exI[of _ credentials']) (simp add: spotify_get_section example_section_def)
qed

text \<open>
  Documents of any other shape are left as they are: line 106 raises, and line 108 is not
  reached.
\<close>

lemma update_misshapen_untouched:
  "section_of credentials = None \<Longrightarrow>
   \<exists>e. update_credentials_file tok (Doc credentials) = (Doc credentials, Inl e)"
  by (cases credentials)
    (auto simp: update_credentials_file_def split: option.splits json.splits)



text \<open>The same holds of text nested too deeply, and of a file that cannot be opened.\<close>

lemma update_uncaught_read_errors:
  "update_credentials_file tok (NotText bytes) = (NotText bytes, Inl UnicodeDecodeError)"
  "update_credentials_file tok (TooDeep txt) = (TooDeep txt, Inl RecursionError)"
  "update_credentials_file tok Unreadable = (Unreadable, Inl PermissionError)"
  by (simp_all add: update_credentials_file_def)

text \<open>
  Where \<^verbatim>\<open>is_enabled\<close> answers \<^verbatim>\<open>False\<close> after its message, and what it reads
  from a document of the expected shape.
\<close>

lemma is_enabled_unparsable:
  "is_enabled NoFile = ([Could_not_read], Inr (JBool False))"
  "is_enabled (NotJson txt) = ([Could_not_read], Inr (JBool False))"
  by (simp_all add: is_enabled_def)

lemma is_enabled_uncaught_read_errors:
  "is_enabled (NotText bytes) = ([], Inl UnicodeDecodeError)"
  "is_enabled (TooDeep txt) = ([], Inl RecursionError)"
  by (simp_all add: is_enabled_def)

lemma is_enabled_section:
  "section_of credentials = Some section \<Longrightarrow>
   is_enabled (Doc credentials)
     = ([], Inr (case map_of section ''enabled'' of None \<Rightarrow> JBool False | Some v \<Rightarrow> v))"
  by (simp add: is_enabled_def spotify_get_section)

text \<open>
  Claim C9 does not hold of the code. The handler of \<^verbatim>\<open>is_enabled\<close> catches
  \<^verbatim>\<open>FileNotFoundError\<close> and \<^verbatim>\<open>JSONDecodeError\<close> only. A file that parses to a value
  of another shape (here \<^verbatim>\<open>{"spotify": null}\<close>, and any top-level list) makes
  \<^verbatim>\<open>.get\<close> raise \<^verbatim>\<open>AttributeError\<close>, and a file that \<^verbatim>\<open>open\<close> refuses raises
  \<^verbatim>\<open>PermissionError\<close>; both leave \<^verbatim>\<open>is_enabled\<close>, with nothing printed.
\<close>

theorem is_enabled_raises:
  "is_enabled (Doc (JObj [(''spotify'', JNull)])) = ([], Inl AttributeError)
 \<and> is_enabled (Doc (JArr xs)) = ([], Inl AttributeError)
 \<and> is_enabled Unreadable = ([], Inl PermissionError)"
  by (simp add: is_enabled_def spotify_get_def)

section \<open>The token: what is proved\<close>

lemma request_new_token_exchanges:
  "exchanges (fst (snd (request_new_token srv cid secret f))) = 1"
  by (simp add: request_new_token_def Let_def exchanges_def split: sum.splits prod.splits)

lemma request_new_token_section:
  assumes "section_of credentials = Some section"
  shows "case request_new_token srv cid secret (Doc credentials) of (f', rqs, res) \<Rightarrow>
      rqs = [PostToken cid secret] \<and>
        (if status_code (srv (PostToken cid secret)) = 200
         then (case body (srv (PostToken cid secret)) of
                 Some (JObj kvs) \<Rightarrow>
                   (\<exists>new credentials'. py_get (JObj kvs) ''access_token'' JNull = Inr new
                       \<and> res = Inr new \<and> f' = Doc credentials'
                       \<and> spotify_get credentials' ''access_token'' JNull = Inr new)
               | _ \<Rightarrow> (\<exists>e. res = Inl e) \<and> f' = Doc credentials)
         else (\<exists>e. res = Inl e) \<and> f' = Doc credentials)"
proof -
  have upd: "\<exists>credentials'. update_credentials_file new (Doc credentials) = (Doc credentials', Inr ())
      \<and> spotify_get credentials' ''access_token'' JNull = Inr new" for new
    using update_section[OF assms, of new]
    by (auto simp: spotify_get_section map_of_dict_set)
  show ?thesis
  proof (cases "status_code (srv (PostToken cid secret)) = 200")
    case False
    then show ?thesis
      by (simp add: request_new_token_def Let_def response_json_def split: option.splits)
  next
    case True
    show ?thesis
    proof (cases "body (srv (PostToken cid secret))")
      case None
      with True show ?thesis
        by (simp add: request_new_token_def Let_def response_json_def)
    next
      case (Some j)
      show ?thesis
      proof (cases j)
        case (JObj kvs)
        obtain new where n: "py_get (JObj kvs) ''access_token'' JNull = Inr new" by simp
        obtain credentials' where "update_credentials_file new (Doc credentials) = (Doc credentials', Inr ())"
          "spotify_get credentials' ''access_token'' JNull = Inr new"
          using upd by blast
        with True Some JObj n show ?thesis
          by (simp add: request_new_token_def Let_def response_json_def)
      qed (use True Some in \<open>simp_all add: request_new_token_def Let_def response_json_def\<close>)
    qed
  qed
qed

text \<open>
  Claim C4, as amended. For a document of the expected shape, \<^verbatim>\<open>get_access_token\<close>
  sends no exchange request when the cached token is truthy and its probe returns 200, and
  then returns the cached token and leaves the file alone; otherwise it sends exactly one.
  When that request returns 200 with a JSON object, the token of the body is written to the
  file and is what is returned; when it returns another status (or a body that is not a
  JSON object) an exception is raised and the file is as before.
\<close>

theorem get_access_token_exchange:
  assumes "section_of credentials = Some section"
  shows "case get_access_token srv cid secret (Doc credentials) of (f', rqs, res) \<Rightarrow>
     (if truthy (cached_token section) \<and> status_code (srv (GetMe (cached_token section))) = 200
      then exchanges rqs = 0 \<and> rqs = [GetMe (cached_token section)]
         \<and> res = Inr (cached_token section) \<and> f' = Doc credentials
      else exchanges rqs = 1 \<and>
        (if status_code (srv (PostToken cid secret)) = 200
         then (case body (srv (PostToken cid secret)) of
                 Some (JObj kvs) \<Rightarrow>
                   (\<exists>new credentials'. py_get (JObj kvs) ''access_token'' JNull = Inr new
                       \<and> res = Inr new \<and> f' = Doc credentials'
                       \<and> spotify_get credentials' ''access_token'' JNull = Inr new)
               | _ \<Rightarrow> (\<exists>e. res = Inl e) \<and> f' = Doc credentials)
         else (\<exists>e. res = Inl e) \<and> f' = Doc credentials))"
proof -
  have sg: "spotify_get credentials ''access_token'' JNull = Inr (cached_token section)"
    by (simp add: spotify_get_section[OF assms] cached_token_def)
  show ?thesis
  proof (cases "truthy (cached_token section) \<and> status_code (srv (GetMe (cached_token section))) = 200")
    case True
    then show ?thesis
      by (simp add: get_access_token_def sg is_token_valid_def exchanges_def)
  next
    case False
    then show ?thesis
      using request_new_token_section[OF assms, where srv = srv and cid = cid and secret = secret]
      by (auto simp: get_access_token_def sg is_token_valid_def exchanges_def split: prod.splits)
  qed
qed

theorem get_access_token_exchange_witness:
  "case get_access_token granting_remote (JStr ''id'') (JStr ''secret'') (Doc example_credentials) of
     (f', rqs, res) \<Rightarrow> exchanges rqs = 1 \<and> res = Inr (JStr ''new'')"
proof -
  have h: "section_of example_credentials = Some example_section"
    by (simp add: example_credentials_def)
  have c: "cached_token example_section = JStr ''old''"
    by (simp add: cached_token_def example_section_def)
  show ?thesis
    using get_access_token_exchange[OF h, of granting_remote "JStr ''id''" "JStr ''secret''"]
    by (auto simp: c granting_remote_def split: prod.splits)
qed

text \<open>
  Claim C4 as stated fails where the exchange is rejected: the probe returns 401, one
  exchange request is sent and returns 400, and line 89 raises; no token is returned and
  the file still holds the old one.
\<close>

theorem get_access_token_rejected_exchange:
  "get_access_token rejecting_remote (JStr ''id'') (JStr ''secret'') (Doc example_credentials)
   = (Doc example_credentials, [GetMe (JStr ''old''), PostToken (JStr ''id'') (JStr ''secret'')],
      Inl (Exception 400 (JObj [(''error'', JStr ''invalid_client'')])))"
  by (simp add: get_access_token_def example_credentials_def example_section_def spotify_get_def
     is_token_valid_def rejecting_remote_def request_new_token_def response_json_def)

section \<open>The scheduler: what is proved\<close>

lemma length_set_task: "length (set_task i t ts) = length ts"
  by (simp add: set_task_def)

lemma map_fst_set_task: "map fst (set_task i t ts) = map fst ts"
  by (cases "i < length ts") (simp_all add: set_task_def map_update list_update_same_conv list_update_beyond)

lemma nth_set_task:
  "j < length ts \<Longrightarrow> snd (set_task i t ts ! j) = (if j = i then t else snd (ts ! j))"
  by (simp add: set_task_def nth_list_update)

lemma count_filter_update:
  "i < length ts \<Longrightarrow>
   length (filter P (ts[i := x])) + (if P (ts ! i) then 1 else 0)
     = length (filter P ts) + (if P x then 1 else 0)"
proof (induction ts arbitrary: i)
  case Nil
  then show ?case by simp
next
  case (Cons a ts)
  then show ?case by (cases i) auto
qed

lemma mset_filter_update:
  "i < length ts \<Longrightarrow>
   mset (filter P (ts[i := x])) + (if P (ts ! i) then {#ts ! i#} else {#})
     = mset (filter P ts) + (if P x then {#x#} else {#})"
proof (induction ts arbitrary: i)
  case Nil
  then show ?case by simp
next
  case (Cons a ts)
  show ?case
  proof (cases i)
    case 0
    then show ?thesis by simp
  next
    case (Suc k)
    with Cons.prems have "k < length ts" by simp
    from Cons.IH[OF this] show ?thesis
      using Suc by (simp split: if_splits)
  qed
qed

lemma mset_swap_list: "i < length x \<Longrightarrow> j < length x \<Longrightarrow> mset (swap i j x) = mset x"
  unfolding swap_def by (simp add: mset_swap)

lemma length_swap: "length (swap i j x) = length x"
  by (simp add: swap_def)

lemma mset_shuffle_down: "i < length x \<Longrightarrow> mset (shuffle_down rnd i x) = mset x"
proof (induction i arbitrary: x)
  case 0
  then show ?case by simp
next
  case (Suc i)
  have j: "rnd (Suc i + 1) mod (Suc i + 1) < length x"
  proof -
    have "rnd (Suc i + 1) mod (Suc i + 1) < Suc i + 1" by (rule mod_less_divisor) simp
    with Suc.prems show ?thesis by linarith
  qed
  show ?case
    using Suc j by (simp add: mset_swap_list length_swap)
qed

lemma mset_shuffle: "mset (shuffle rnd x) = mset x"
  by (cases x) (simp_all add: shuffle_def mset_shuffle_down)

lemma played_append: "played n (xs @ ys) = played n xs @ played n ys"
  by (induction n xs rule: played.induct) auto

lemma holds_slot_snd: "holds_slot p = (snd p = Admitted \<or> snd p = Sleeping)"
  by (cases p) simp

lemma dispatched_snd: "dispatched p = (snd p \<noteq> Pending)"
  by (cases p) simp

lemma holds_slot_occupies: "(if holds_slot p then 1 else 0) = occupies (snd p)"
  by (cases p; cases "snd p") auto

lemma in_flight_set_task:
  assumes "i < length ts"
  shows "length (filter holds_slot (set_task i t ts)) + occupies (snd (ts ! i))
     = length (filter holds_slot ts) + occupies t"
  using count_filter_update[OF assms, of holds_slot "(fst (ts ! i), t)"]
  unfolding holds_slot_occupies set_task_def by simp

lemma in_flight_fresh: "filter holds_slot (map (\<lambda>e. (e, Pending)) eps) = []"
  by (induction eps) simp_all

lemma in_flight_finished:
  "\<forall>t \<in> set ts. snd t = Finished \<Longrightarrow> filter holds_slot ts = []"
  by (induction ts) (simp_all add: holds_slot_snd)

lemma slots_inv_init: "slots_inv m (play_randomly m eps dev tok f)"
  by (simp add: slots_inv_def play_randomly_def in_flight_def)

lemma slots_inv_step:
  assumes "slots_inv m s"
  shows "slots_inv m (step a s)"
proof (cases a)
  case (Edit f)
  with assms show ?thesis by (simp add: slots_inv_def in_flight_def)
next
  case (Iterate rnd)
  with assms show ?thesis
    by (auto simp: slots_inv_def in_flight_def Let_def in_flight_fresh logged_def
        split: prod.splits sum.splits)
next
  case (Admit i)
  show ?thesis
  proof (cases "at_task s i Pending \<and> 0 < sem_value s")
    case True
    then have "length (filter holds_slot (set_task i Admitted (tasks s)))
        = length (filter holds_slot (tasks s)) + 1"
      using in_flight_set_task[of i "tasks s" Admitted] by (simp add: at_task_def)
    with assms True Admit show ?thesis
      by (auto simp: slots_inv_def in_flight_def at_task_def)
  next
    case False
    with assms Admit show ?thesis by auto
  qed
next
  case (Respond i r)
  show ?thesis
  proof (cases "at_task s i Admitted")
    case True
    then have "length (filter holds_slot (set_task i Sleeping (tasks s)))
        = length (filter holds_slot (tasks s))"
      and "length (filter holds_slot (set_task i Finished (tasks s))) + 1
        = length (filter holds_slot (tasks s))"
      and "length (filter holds_slot (set_task i Raised (tasks s))) + 1
        = length (filter holds_slot (tasks s))"
      using in_flight_set_task[of i "tasks s" Sleeping] in_flight_set_task[of i "tasks s" Finished]
        in_flight_set_task[of i "tasks s" Raised]
      by (simp_all add: at_task_def)
    with assms True Respond show ?thesis
      by (auto simp: slots_inv_def in_flight_def at_task_def split: sum.splits)
  next
    case False
    with assms Respond show ?thesis by auto
  qed
next
  case (Wake i)
  show ?thesis
  proof (cases "at_task s i Sleeping")
    case True
    then have "length (filter holds_slot (set_task i Finished (tasks s))) + 1
        = length (filter holds_slot (tasks s))"
      using in_flight_set_task[of i "tasks s" Finished] by (simp add: at_task_def)
    with assms True Wake show ?thesis
      by (auto simp: slots_inv_def in_flight_def at_task_def)
  next
    case False
    with assms Wake show ?thesis by auto
  qed
next
  case Gather
  with assms show ?thesis
    by (auto simp: slots_inv_def in_flight_def in_flight_finished)
qed

lemma run_snoc: "run s (acts @ [a]) = step a (run s acts)"
  by (simp add: run_def)

lemma slots_inv_run: "slots_inv m (run (play_randomly m eps dev tok f) acts)"
proof (induction acts rule: rev_induct)
  case Nil
  show ?case by (simp add: run_def slots_inv_init)
next
  case (snoc a acts)
  then show ?case by (simp add: run_snoc slots_inv_step)
qed

text \<open>
  Claim C1. Whatever the episode list, the value of \<^verbatim>\<open>max_concurrent\<close> and the
  schedule, the number of tasks inside \<^verbatim>\<open>async with semaphore\<close> never exceeds
  \<^verbatim>\<open>max_concurrent\<close> (with a negative value \<^verbatim>\<open>play_randomly\<close> raises before its
  loop and no task ever exists); and while that many are inside, a further task is not
  admitted: it sends nothing and stays where it is.
\<close>

theorem in_flight_bounded:
  "int (in_flight (run (play_randomly m eps dev tok f) acts)) \<le> max 0 m
 \<and> (m \<le> int (in_flight (run (play_randomly m eps dev tok f) acts)) \<longrightarrow>
      step (Admit i) (run (play_randomly m eps dev tok f) acts)
        = run (play_randomly m eps dev tok f) acts)"
proof -
  let ?s = "run (play_randomly m eps dev tok f) acts"
  have inv: "slots_inv m ?s" by (rule slots_inv_run)
  have a: "int (in_flight ?s) \<le> max 0 m"
    using inv by (cases "m < 0") (auto simp: slots_inv_def in_flight_def)
  have b: "step (Admit i) ?s = ?s" if "m \<le> int (in_flight ?s)"
    using inv that by (simp add: slots_inv_def)
  show ?thesis using a b by blast
qed

lemma played_none: "\<forall>x \<in> set tr. fst x \<noteq> n \<Longrightarrow> played n tr = []"
  by (induction n tr rule: played.induct) auto

lemma played_other_cycle: "k \<noteq> n \<Longrightarrow> played n (map (Pair k) evs) = []"
  by (rule played_none) auto

lemma dispatched_tasks_update:
  assumes "i < length ts"
  shows "mset (map fst (filter dispatched (set_task i t ts)))
           + (if snd (ts ! i) \<noteq> Pending then {#fst (ts ! i)#} else {#})
       = mset (map fst (filter dispatched ts))
           + (if t \<noteq> Pending then {#fst (ts ! i)#} else {#})"
proof -
  have "image_mset fst (mset (filter dispatched (ts[i := (fst (ts ! i), t)]))
            + (if dispatched (ts ! i) then {#ts ! i#} else {#}))
      = image_mset fst (mset (filter dispatched ts)
            + (if dispatched (fst (ts ! i), t) then {#(fst (ts ! i), t)#} else {#}))"
    using mset_filter_update[OF assms, of dispatched "(fst (ts ! i), t)"] by (rule arg_cong)
  then show ?thesis
    by (simp add: set_task_def dispatched_snd split: if_splits)
qed

lemma dispatched_fresh: "filter dispatched (map (\<lambda>e. (e, Pending)) eps) = []"
  by (induction eps) simp_all

lemma dispatched_finished:
  "\<forall>t \<in> set ts. snd t = Finished \<Longrightarrow> filter dispatched ts = ts"
  by (induction ts) (simp_all add: dispatched_snd)

lemma trace_inv_init: "trace_inv eps (play_randomly m eps dev tok f)"
  by (simp add: trace_inv_def play_randomly_def)

lemma trace_inv_Edit: "trace_inv eps0 s \<Longrightarrow> trace_inv eps0 (step (Edit f) s)"
  by (simp add: trace_inv_def)

lemma played_map_Pair: "played n (map (Pair k) evs) = (if k = n then sent_episodes evs else [])"
  by (induction evs rule: sent_episodes.induct) auto

lemma played_logged:
  "played n (logged s evs) = played n (trace s) @ (if cycle s = n then sent_episodes evs else [])"
  by (simp add: logged_def played_append played_map_Pair)

lemma set_logged: "set (logged s evs) = set (trace s) \<union> Pair (cycle s) ` set evs"
  by (simp add: logged_def)

lemma sent_episodes_prints: "sent_episodes (map Print msgs @ evs) = sent_episodes evs"
  by (induction msgs) simp_all

lemma mset_fst_set_task: "image_mset fst (mset (set_task i t ts)) = image_mset fst (mset ts)"
  using arg_cong[OF map_fst_set_task, of mset i t ts] by simp

lemma mset_fst_fresh: "image_mset (fst \<circ> (\<lambda>e. (e, Pending))) M = M"
  by (simp add: comp_def)

lemma trace_inv_Iterate:
  assumes "trace_inv eps0 s"
  shows "trace_inv eps0 (step (Iterate rnd) s)"
proof (cases "control s = LoopHead")
  case False
  with assms show ?thesis by simp
next
  case True
  have old: "played (cycle s) (trace s) = []"
    using assms True by (intro played_none) (auto simp: trace_inv_def)
  obtain msgs res where en: "is_enabled (credentials_file s) = (msgs, res)"
    by (cases "is_enabled (credentials_file s)")
  show ?thesis
  proof (cases res)
    case (Inl e)
    with assms True en show ?thesis
      by (auto simp: trace_inv_def played_logged set_logged less_imp_le)
  next
    case (Inr v)
    show ?thesis
    proof (cases "truthy v")
      case False
      with assms True en Inr show ?thesis
        by (auto simp: trace_inv_def played_logged set_logged less_imp_le)
    next
      case yes: True
      have a: "mset (shuffle rnd (episodes s)) = mset eps0"
        using assms by (simp add: mset_shuffle trace_inv_def)
      from assms True en Inr yes a show ?thesis
        by (auto simp: trace_inv_def played_logged set_logged less_imp_le Let_def mset_fst_fresh
            dispatched_fresh old sent_episodes_prints)
    qed
  qed
qed

lemma length_tasks_eps: "mset (map fst ts) = mset eps0 \<Longrightarrow> length ts = length eps0"
  by (metis length_map size_mset)

lemma trace_inv_Admit:
  assumes "trace_inv eps0 s"
  shows "trace_inv eps0 (step (Admit i) s)"
proof (cases "at_task s i Pending \<and> 0 < sem_value s")
  case False
  with assms show ?thesis by auto
next
  case True
  then have i: "i < length (tasks s)" and p: "snd (tasks s ! i) = Pending" and g: "control s = Gathering"
    by (simp_all add: at_task_def)
  have d: "mset (map fst (filter dispatched (set_task i Admitted (tasks s))))
      = mset (map fst (filter dispatched (tasks s))) + {#fst (tasks s ! i)#}"
    using dispatched_tasks_update[OF i, of Admitted] p by simp
  from assms True g d show ?thesis
    by (auto simp: trace_inv_def played_logged set_logged mset_fst_set_task length_set_task
        nth_set_task)
qed

lemma trace_inv_Respond:
  assumes "trace_inv eps0 s"
  shows "trace_inv eps0 (step (Respond i r) s)"
proof (cases "at_task s i Admitted")
  case False
  with assms show ?thesis by auto
next
  case True
  then have i: "i < length (tasks s)" and p: "snd (tasks s ! i) = Admitted" and g: "control s = Gathering"
    by (simp_all add: at_task_def)
  have d: "mset (map fst (filter dispatched (set_task i t (tasks s))))
      = mset (map fst (filter dispatched (tasks s)))" if "t \<noteq> Pending" for t
    using dispatched_tasks_update[OF i, of t] p that by simp
  from assms True g d show ?thesis
    by (auto simp: trace_inv_def played_logged set_logged mset_fst_set_task length_set_task
        nth_set_task split: sum.splits)
qed

lemma trace_inv_Wake:
  assumes "trace_inv eps0 s"
  shows "trace_inv eps0 (step (Wake i) s)"
proof (cases "at_task s i Sleeping")
  case False
  with assms show ?thesis by auto
next
  case True
  then have i: "i < length (tasks s)" and p: "snd (tasks s ! i) = Sleeping" and g: "control s = Gathering"
    by (simp_all add: at_task_def)
  have d: "mset (map fst (filter dispatched (set_task i Finished (tasks s))))
      = mset (map fst (filter dispatched (tasks s)))"
    using dispatched_tasks_update[OF i, of Finished] p by simp
  from assms True g d show ?thesis
    by (auto simp: trace_inv_def played_logged set_logged mset_fst_set_task length_set_task
        nth_set_task)
qed

lemma trace_inv_Gather:
  assumes "trace_inv eps0 s"
  shows "trace_inv eps0 (step Gather s)"
proof (cases "control s = Gathering")
  case False
  with assms show ?thesis by simp
next
  case g: True
  show ?thesis
  proof (cases "Raised \<in> snd ` set (tasks s)")
    case True
    with assms g show ?thesis by (auto simp: trace_inv_def)
  next
    case no: False
    show ?thesis
    proof (cases "\<forall>t \<in> set (tasks s). snd t = Finished")
      case False
      with assms g no show ?thesis by auto
    next
      case True
      then have all: "filter dispatched (tasks s) = tasks s"
        by (rule dispatched_finished)
      have len: "length (tasks s) = length eps0"
        using assms g by (intro length_tasks_eps) (simp add: trace_inv_def)
      have fin: "snd (tasks s ! i) = Finished" if "i < length eps0" for i
        using True that len by simp
      have now: "mset (played (cycle s) (trace s)) = mset eps0
          \<and> (\<forall>i < length eps0. (cycle s, Task_done i) \<in> set (trace s))"
        using assms g all len fin by (simp add: trace_inv_def)
      have "\<forall>n < Suc (cycle s). mset (played n (trace s)) = mset eps0
          \<and> (\<forall>i < length eps0. (n, Task_done i) \<in> set (trace s))"
        using assms now by (auto simp: trace_inv_def less_Suc_eq)
      with assms g no True show ?thesis
        by (auto simp: trace_inv_def less_Suc_eq_le)
    qed
  qed
qed

lemma trace_inv_step: "trace_inv eps0 s \<Longrightarrow> trace_inv eps0 (step a s)"
  by (cases a) (simp_all only: trace_inv_Edit trace_inv_Iterate trace_inv_Admit trace_inv_Respond
      trace_inv_Wake trace_inv_Gather)

lemma trace_inv_run: "trace_inv eps (run (play_randomly m eps dev tok f) acts)"
proof (induction acts rule: rev_induct)
  case Nil
  show ?case by (simp add: run_def trace_inv_init)
next
  case (snoc a acts)
  then show ?case by (simp add: run_snoc trace_inv_step)
qed

lemma ordered_append:
  assumes "ordered N tr"
    and "\<forall>x \<in> set new. \<forall>n. fst x = Suc n \<longrightarrow> (\<forall>i<N. (n, Task_done i) \<in> set tr)"
  shows "ordered N (tr @ new)"
  unfolding ordered_def
proof (intro allI impI)
  fix pre n e post i
  assume split: "tr @ new = pre @ (Suc n, e) # post" and i: "i < N"
  from split obtain us where
    "(tr = pre @ us \<and> us @ new = (Suc n, e) # post) \<or> (tr @ us = pre \<and> new = us @ (Suc n, e) # post)"
    unfolding append_eq_append_conv2 by blast
  then show "(n, Task_done i) \<in> set pre"
  proof
    assume a: "tr = pre @ us \<and> us @ new = (Suc n, e) # post"
    show ?thesis
    proof (cases us)
      case Nil
      with a have "(Suc n, e) \<in> set new" and "pre = tr" by simp_all
      with assms(2) i show ?thesis by fastforce
    next
      case (Cons u us')
      with a have "tr = pre @ (Suc n, e) # us'" by simp
      with assms(1) i show ?thesis unfolding ordered_def by blast
    qed
  next
    assume b: "tr @ us = pre \<and> new = us @ (Suc n, e) # post"
    then have "(Suc n, e) \<in> set new" by simp
    with assms(2) i have "(n, Task_done i) \<in> set tr" by fastforce
    with b show ?thesis by auto
  qed
qed

lemma ordered_logged:
  assumes "trace_inv eps0 s" and "ordered (length eps0) (trace s)"
  shows "ordered (length eps0) (logged s evs)"
  unfolding logged_def
proof (rule ordered_append[OF assms(2)], intro ballI allI impI)
  fix x n i
  assume "x \<in> set (map (Pair (cycle s)) evs)" and "fst x = Suc n" and "i < length eps0"
  then have "n < cycle s" by auto
  with assms(1) \<open>i < length eps0\<close> show "(n, Task_done i) \<in> set (trace s)"
    by (simp add: trace_inv_def)
qed

lemma ordered_step:
  assumes "trace_inv eps0 s" and "ordered (length eps0) (trace s)"
  shows "ordered (length eps0) (trace (step a s))"
  using assms(2) ordered_logged[OF assms]
  by (cases a) (auto simp: Let_def split: prod.splits sum.splits)

lemma ordered_run: "ordered (length eps) (trace (run (play_randomly m eps dev tok f) acts))"
proof (induction acts rule: rev_induct)
  case Nil
  show ?case by (simp add: run_def play_randomly_def ordered_def)
next
  case (snoc a acts)
  then show ?case by (simp add: run_snoc ordered_step[OF trace_inv_run])
qed

text \<open>
  Claim C2. In every trace of the scheduler, an event of cycle \<open>n + 1\<close> (the check of the
  enabled flag, the shuffle, a play command, anything printed) comes after the return of
  every task of cycle \<open>n\<close>, whether it played its episode or printed a failure.
\<close>

theorem cycles_do_not_overlap:
  assumes "trace (run (play_randomly m eps dev tok f) acts) = pre @ (Suc n, e) # post"
    and "i < length eps"
  shows "(n, Task_done i) \<in> set pre"
  using ordered_run[of eps m dev tok f acts] assms unfolding ordered_def by blast

text \<open>
  Claim C3. The play commands sent in a cycle that has run to its end are, up to order, the
  configured episode list: one command for each entry, whatever the shuffle drew; when the
  entries are distinct no episode is played twice.
\<close>

theorem cycle_plays_each_episode_once:
  assumes "n < cycle (run (play_randomly m eps dev tok f) acts)"
  shows "mset (played n (trace (run (play_randomly m eps dev tok f) acts))) = mset eps
       \<and> (distinct eps \<longrightarrow> distinct (played n (trace (run (play_randomly m eps dev tok f) acts))))"
proof -
  have "mset (played n (trace (run (play_randomly m eps dev tok f) acts))) = mset eps"
    using trace_inv_run[of eps m dev tok f acts] assms by (simp add: trace_inv_def)
  then show ?thesis
    by (auto dest: mset_eq_imp_distinct_iff)
qed

lemma run_Cons: "run s (a # acts) = run (step a s) acts"
  by (simp add: run_def)

lemma halted_step:
  "control s = Stopped \<or> control s = Crashed e \<Longrightarrow>
   control (step a s) = control s \<and> trace (step a s) = trace s \<and> cycle (step a s) = cycle s"
  by (cases a) (auto simp: at_task_def)

lemma halted_run:
  "control s = Stopped \<or> control s = Crashed e \<Longrightarrow>
   control (run s acts) = control s \<and> trace (run s acts) = trace s \<and> cycle (run s acts) = cycle s"
proof (induction acts arbitrary: s)
  case Nil
  show ?case by (simp add: run_def)
next
  case (Cons a acts)
  from halted_step[OF Cons.prems, of a] Cons.prems
  have "control (step a s) = Stopped \<or> control (step a s) = Crashed e" by auto
  from Cons.IH[OF this] halted_step[OF Cons.prems, of a] show ?case
    by (simp add: run_Cons)
qed

text \<open>
  Claim C8. When \<^verbatim>\<open>is_enabled\<close> gives a falsy value at the first loop entry (the
  stored flag, or \<^verbatim>\<open>False\<close> after a failed read), \<^verbatim>\<open>play_randomly\<close> prints its
  message and returns: no cycle, no play command, no exception, whatever is scheduled
  afterwards.
\<close>

theorem disabled_at_first_entry:
  assumes "0 \<le> m" and "is_enabled f = (msgs, Inr v)" and "\<not> truthy v"
  shows "control (run (play_randomly m eps dev tok f) (Iterate rnd # acts)) = Stopped
       \<and> cycle (run (play_randomly m eps dev tok f) (Iterate rnd # acts)) = 0
       \<and> trace (run (play_randomly m eps dev tok f) (Iterate rnd # acts))
           = map (Pair 0) (Check_enabled # map Print msgs @ [Print Playback_disabled])
       \<and> played k (trace (run (play_randomly m eps dev tok f) (Iterate rnd # acts))) = []"
proof -
  let ?s = "step (Iterate rnd) (play_randomly m eps dev tok f)"
  have s: "control ?s = Stopped \<and> cycle ?s = 0
      \<and> trace ?s = map (Pair 0) (Check_enabled # map Print msgs @ [Print Playback_disabled])"
    using assms by (simp add: play_randomly_def logged_def)
  then have "control ?s = Stopped \<or> control ?s = Crashed ValueError" by simp
  from halted_run[OF this, of acts] s
  have r: "control (run ?s acts) = Stopped \<and> cycle (run ?s acts) = 0
      \<and> trace (run ?s acts) = map (Pair 0) (Check_enabled # map Print msgs @ [Print Playback_disabled])"
    by simp
  have "played k (map (Pair 0) (Check_enabled # map Print msgs @ [Print Playback_disabled])) = []"
    by (simp only: played_map_Pair) (simp add: sent_episodes_prints)
  with r show ?thesis by (simp add: run_Cons)
qed

subsection \<open>Concrete runs\<close>

lemma example_enabled: "is_enabled (Doc example_credentials) = ([], Inr (JBool True))"
  by (simp add: is_enabled_def spotify_get_def example_credentials_def example_section_def)

lemmas eval_simps = run_def two_episodes_def full_cycle_def play_randomly_def example_enabled
  logged_def shuffle_def swap_def at_task_def set_task_def ok_def forbidden_def bad_gateway_def
  response_json_def Let_def in_flight_def

lemma run_append: "run s (xs @ ys) = run (run s xs) ys"
  by (simp add: run_def)

theorem in_flight_bounded_witness:
  "in_flight (run two_episodes [Iterate (\<lambda>n. 0), Admit 0]) = 1
 \<and> step (Admit 1) (run two_episodes [Iterate (\<lambda>n. 0), Admit 0])
     = run two_episodes [Iterate (\<lambda>n. 0), Admit 0]"
proof -
  have n: "in_flight (run two_episodes [Iterate (\<lambda>n. 0), Admit 0]) = 1"
    by (simp add: eval_simps)
  from in_flight_bounded[of 1 "[JStr ''a'', JStr ''b'']" "JStr ''dev''" "JStr ''tok''"
      "Doc example_credentials" "[Iterate (\<lambda>n. 0), Admit 0]" 1] n
  show ?thesis by (simp add: two_episodes_def)
qed

theorem cycles_do_not_overlap_witness:
  "(0, Task_done 1) \<in> set (trace (run two_episodes full_cycle))"
proof -
  have t: "trace (run (play_randomly 1 [JStr ''a'', JStr ''b''] (JStr ''dev'') (JStr ''tok'')
        (Doc example_credentials)) (full_cycle @ [Iterate (\<lambda>n. 0)]))
      = trace (run two_episodes full_cycle) @ (Suc 0, Check_enabled) # [(Suc 0, Shuffled)]"
    by (simp add: eval_simps)
  show ?thesis
    by (rule cycles_do_not_overlap[OF t]) simp
qed

theorem cycle_plays_each_episode_once_witness:
  "cycle (run two_episodes full_cycle) = 1
 \<and> mset (played 0 (trace (run two_episodes full_cycle))) = mset [JStr ''a'', JStr ''b'']"
proof -
  have c: "cycle (run two_episodes full_cycle) = 1"
    by (simp add: eval_simps)
  then have "0 < cycle (run (play_randomly 1 [JStr ''a'', JStr ''b''] (JStr ''dev'') (JStr ''tok'')
        (Doc example_credentials)) full_cycle)"
    by (simp add: two_episodes_def)
  from cycle_plays_each_episode_once[OF this] c show ?thesis
    by (simp add: two_episodes_def)
qed

theorem disabled_at_first_entry_witness:
  "control (run (play_randomly 5 [JStr ''a''] (JStr ''dev'') (JStr ''tok'') (Doc disabled_credentials))
      [Iterate (\<lambda>n. 0), Admit 0, Gather]) = Stopped
 \<and> trace (run (play_randomly 5 [JStr ''a''] (JStr ''dev'') (JStr ''tok'') (Doc disabled_credentials))
      [Iterate (\<lambda>n. 0), Admit 0, Gather]) = [(0, Check_enabled), (0, Print Playback_disabled)]"
proof -
  have e: "is_enabled (Doc disabled_credentials) = ([], Inr (JBool False))"
    by (simp add: is_enabled_def spotify_get_def disabled_credentials_def)
  from disabled_at_first_entry[OF _ e, of 5 "[JStr ''a'']" "JStr ''dev''" "JStr ''tok''"
      "\<lambda>n. 0" "[Admit 0, Gather]" 0]
  show ?thesis by simp
qed

text \<open>
  Claim C7 does not hold of the code. Line 160 prints \<^verbatim>\<open>response.json()\<close>, which raises
  when the body of the failed response is not JSON. Here the first play command is answered
  by a 502 with such a body: the exception leaves \<^verbatim>\<open>play_episode\<close> and frees its
  slot. The event loop first runs the other task, already scheduled, which sends its
  command and gets a 204; then \<^verbatim>\<open>asyncio.gather\<close> raises the exception in
  \<^verbatim>\<open>play_randomly\<close>, which ends there: the cycle is not completed and no further cycle
  starts, whatever is scheduled afterwards.
\<close>

theorem play_failure_without_json_body_aborts:
  "control (run two_episodes
      ([Iterate (\<lambda>n. 0), Admit 0, Respond 0 bad_gateway, Admit 1, Respond 1 ok, Gather] @ acts))
     = Crashed JSONDecodeError
 \<and> cycle (run two_episodes
      ([Iterate (\<lambda>n. 0), Admit 0, Respond 0 bad_gateway, Admit 1, Respond 1 ok, Gather] @ acts))
     = 0"
proof -
  let ?s = "run two_episodes
      [Iterate (\<lambda>n. 0), Admit 0, Respond 0 bad_gateway, Admit 1, Respond 1 ok, Gather]"
  have s: "control ?s = Crashed JSONDecodeError \<and> cycle ?s = 0"
    by (simp add: eval_simps)
  then have "control ?s = Stopped \<or> control ?s = Crashed JSONDecodeError" by simp
  from halted_run[OF this, of acts] s show ?thesis
    unfolding run_append by simp
qed

text \<open>On that run both play commands have been sent when the exception arrives.\<close>

lemma both_commands_sent_before_abort:
  "played 0 (trace (run two_episodes
      [Iterate (\<lambda>n. 0), Admit 0, Respond 0 bad_gateway, Admit 1, Respond 1 ok, Gather]))
     = [JStr ''b'', JStr ''a'']"
  by (simp add: eval_simps)

text \<open>
  Where the body of the failed response is JSON, the failure is printed with that body, the
  task returns and frees its slot, and the scheduler goes on; the run \<open>full_cycle\<close> ends
  its cycle after such a failure.
\<close>

lemma play_failure_with_json_body_is_not_fatal:
  assumes "at_task s i Admitted" and "status_code r \<noteq> 204" and "body r = Some j"
  shows "control (step (Respond i r) s) = Gathering
       \<and> snd (tasks (step (Respond i r) s) ! i) = Finished
       \<and> sem_value (step (Respond i r) s) = sem_value s + 1
       \<and> trace (step (Respond i r) s)
           = trace s @ [(cycle s, Print (Failed_to_play (fst (tasks s ! i)) j)), (cycle s, Task_done i)]"
  using assms by (simp add: response_json_def logged_def at_task_def set_task_def)

lemma refused_play_does_not_end_cycle:
  "control (run two_episodes full_cycle) = LoopHead
 \<and> (0, Print (Failed_to_play (JStr ''a'') (JObj [(''error'', JStr ''forbidden'')])))
      \<in> set (trace (run two_episodes full_cycle))"
  by (simp add: eval_simps)

end
